theory Spec2Isabelle
  imports Complex_Main "HOL-Library.Char_ord" "HOL-Library.List_Lexorder" "HOL-Library.Multiset"
begin

section \<open>Data model\<close>

text \<open>
  A JavaScript number that may be \<open>NaN\<close>. Bond-count weights are fractional (an aromatic
  bond weighs one and a half), so finite numbers are rationals.
\<close>

datatype number = NaN | Num rat

fun isNaN :: "number \<Rightarrow> bool" where
  "isNaN NaN = True"
| "isNaN (Num _) = False"

text \<open>\<open>n >= x\<close> and \<open>n === x\<close> for a possibly-NaN \<open>n\<close> and a finite \<open>x\<close>: both false on NaN.\<close>

fun num_ge :: "number \<Rightarrow> rat \<Rightarrow> bool" where
  "num_ge NaN x = False"
| "num_ge (Num n) x = (x \<le> n)"

fun num_eq :: "number \<Rightarrow> rat \<Rightarrow> bool" where
  "num_eq NaN x = False"
| "num_eq (Num n) x = (n = x)"

text \<open>
  Every error the code can raise: an \<open>AdvError\<close> with its message (the fixed part of the
  template string) and column number, or the run-time \<open>TypeError\<close> of reading a property
  of \<open>undefined\<close>.
\<close>

datatype error = AdvError string nat | TypeError

text \<open>
  \<open>IBond\<close>: the bond symbol (\<open>-\<close>, \<open>=\<close>, \<open>#\<close> or \<open>:\<close>) and the ID of the group bonded to.
\<close>

record IBond =
  bond :: char
  dest :: nat

text \<open>
  \<open>Group\<close>: \<open>elements\<close> is the \<open>Map\<close> from symbol to count in insertion order.
\<close>

record Group =
  ID :: nat
  elements :: "(string \<times> nat) list"
  charge :: int
  isRadical :: bool
  atomicMass :: "rat option"
  isLowercase :: bool
  chainDepth :: nat
  ringDigits :: "nat list"
  bonds :: "IBond list"
  smilesStringPosition :: nat
  smilesStringLength :: nat
  isImplicit :: bool

text \<open>
  \<open>Molecule\<close>: \<open>groups\<close> is the object \<open>{ [id: number]: Group }\<close>. A JavaScript object
  enumerates its integer keys in ascending order, so it is an association list kept in
  ascending key order (\<open>setKey\<close> writes a key). \<open>rings\<close> holds references to \<open>Ring\<close>
  objects (their IDs); \<open>molRef\<close> is the identity of the \<open>Molecule\<close> object, which is what
  \<open>===\<close> compares.
\<close>

record Molecule =
  molRef :: nat
  groups :: "(nat \<times> Group) list"
  rings :: "nat list"

fun setKey :: "nat \<Rightarrow> 'a \<Rightarrow> (nat \<times> 'a) list \<Rightarrow> (nat \<times> 'a) list" where
  "setKey k v [] = [(k, v)]"
| "setKey k v ((k', v') # xs) =
     (if k = k' then (k, v) # xs
      else if k < k' then (k, v) # (k', v') # xs
      else (k', v') # setKey k v xs)"

section \<open>Helpers of the repository that are not among the source files\<close>

text \<open>
  Modelled from the spec: \<open>getBondNumber\<close> of \<open>utils\<close>, which is not among the source
  files. The spec gives the bond-count weights: single 1, double 2, triple 3,
  aromatic 1.5. The spec names no other bond type; any other character is given weight 0.
\<close>

definition getBondNumber :: "char \<Rightarrow> rat" where
  "getBondNumber b =
     (if b = CHR ''-'' then 1 else if b = CHR ''='' then 2
      else if b = CHR ''#'' then 3 else if b = CHR '':'' then 3 / 2 else 0)"

text \<open>
  The table \<open>organicSubset\<close> of \<open>data-vars\<close> is not among the source files: every function
  that reads it takes it as the parameter \<open>os\<close>, from an element symbol to the array of
  its allowed valences (\<open>None\<close> is \<open>undefined\<close>).
\<close>

type_synonym organicSubset = "string \<Rightarrow> number list option"

text \<open>
  Modelled from the spec: \<open>Group.inOrganicSubset\<close>, which is not among the source files.
  The spec's organic subset is the fixed set of elements that may appear unbracketed,
  each with its allowed valences: a group is in it when it holds exactly one element
  symbol and that symbol is a key of the table.
\<close>

definition inOrganicSubset :: "organicSubset \<Rightarrow> Group \<Rightarrow> bool" where
  "inOrganicSubset os g = (case elements g of [(el, n)] \<Rightarrow> os el \<noteq> None | _ \<Rightarrow> False)"

section \<open>Molecule: bond lookup and bond counts\<close>

text \<open>
  \<open>Molecule.getAllBonds\<close>: copies of the group's own bonds, then, for every other key in
  ascending order, a copy of each bond whose \<open>dest\<close> is the group, with \<open>dest\<close> rewritten to
  that key. Reading \<open>this.groups[groupID].bonds\<close> of a missing key is a \<open>TypeError\<close>.
\<close>

definition reversedBonds :: "nat \<Rightarrow> nat \<times> Group \<Rightarrow> IBond list" where
  "reversedBonds groupID kg =
     (if fst kg = groupID then []
      else map (\<lambda>b. b\<lparr>dest := fst kg\<rparr>) (filter (\<lambda>b. dest b = groupID) (bonds (snd kg))))"

definition getAllBonds :: "Molecule \<Rightarrow> nat \<Rightarrow> error + IBond list" where
  "getAllBonds mol groupID =
     (case map_of (groups mol) groupID of
        None \<Rightarrow> Inl TypeError
      | Some g \<Rightarrow> Inr (bonds g @ concat (map (reversedBonds groupID) (groups mol))))"

text \<open>\<open>Molecule.getBondCount\<close>: the sum of the weights of the same bonds.\<close>

definition getBondCount :: "Molecule \<Rightarrow> nat \<Rightarrow> error + rat" where
  "getBondCount mol groupID =
     (case map_of (groups mol) groupID of
        None \<Rightarrow> Inl TypeError
      | Some g \<Rightarrow>
          Inr (sum_list (map (\<lambda>b. getBondNumber (bond b)) (bonds g))
             + sum_list (map (\<lambda>kg. if fst kg = groupID then 0
                  else sum_list (map (\<lambda>b. getBondNumber (bond b))
                         (filter (\<lambda>b. dest b = groupID) (bonds (snd kg)))))
                 (groups mol))))"

section \<open>Molecule.checkBondCounts\<close>

text \<open>
  The result of \<open>checkBondCounts\<close>: \<open>true\<close>, or the object
  \<open>{ group, element, error }\<close>.
\<close>

datatype BondCheck = Valid | Invalid Group string error

text \<open>
  The loop body's test for one group, given its bond count: the group is neutral, not a
  radical and in the organic subset, the first allowed valence of its first element is
  not NaN (\<open>organicSubset[el][0]\<close> of an empty array is \<open>undefined\<close>, and
  \<open>isNaN(undefined)\<close> is true), and no allowed valence equals the bond count.
\<close>

definition firstElement :: "Group \<Rightarrow> string option" where
  "firstElement g = (case elements g of [] \<Rightarrow> None | (el, n) # _ \<Rightarrow> Some el)"

definition invalidCount :: "organicSubset \<Rightarrow> Group \<Rightarrow> rat \<Rightarrow> bool" where
  "invalidCount os g n =
     (charge g = 0 \<and> \<not> isRadical g \<and> inOrganicSubset os g \<and>
      (case firstElement g of None \<Rightarrow> False
       | Some el \<Rightarrow>
           (case os el of None \<Rightarrow> False
            | Some vs \<Rightarrow> (case vs of [] \<Rightarrow> False | v # _ \<Rightarrow> \<not> isNaN v) \<and>
                \<not> list_ex (\<lambda>v. num_eq v n) vs)))"

fun checkBondCounts_loop :: "organicSubset \<Rightarrow> Molecule \<Rightarrow> (nat \<times> Group) list \<Rightarrow> error + BondCheck" where
  "checkBondCounts_loop os mol [] = Inr Valid"
| "checkBondCounts_loop os mol ((gid, g) # rest) =
     (case getBondCount mol (ID g) of
        Inl e \<Rightarrow> Inl e
      | Inr n \<Rightarrow>
          if charge g = 0 \<and> \<not> isRadical g \<and> inOrganicSubset os g then
            (case firstElement g of
               None \<Rightarrow> Inl TypeError
             | Some el \<Rightarrow>
                 (case os el of
                    None \<Rightarrow> Inl TypeError
                  | Some vs \<Rightarrow>
                      if (case vs of [] \<Rightarrow> False | v # _ \<Rightarrow> \<not> isNaN v) \<and>
                         \<not> list_ex (\<lambda>v. num_eq v n) vs
                      then Inr (Invalid g el
                             (AdvError ''Bond Error: invalid bond count for organic atom''
                                (smilesStringPosition g)))
                      else checkBondCounts_loop os mol rest))
          else checkBondCounts_loop os mol rest)"

definition checkBondCounts :: "organicSubset \<Rightarrow> Molecule \<Rightarrow> error + BondCheck" where
  "checkBondCounts os mol = checkBondCounts_loop os mol (groups mol)"

text \<open>
  Every key of \<open>groups\<close> is the ID of the group stored under it, and the keys are in
  ascending order: what the constructor and every insertion of the code establish.
\<close>

definition wf_groups :: "(nat \<times> Group) list \<Rightarrow> bool" where
  "wf_groups gs = (list_all (\<lambda>kg. ID (snd kg) = fst kg) gs \<and> sorted_wrt (<) (map fst gs))"

text \<open>
  Modelled from the spec: the constructor of \<open>Group\<close> and \<open>Group.addElement\<close>, which are not
  among the source files. A new group gets the identity passed in (identities are assigned in
  creation order by a counter that the callers thread), the nesting depth given, no
  elements, charge 0, no bonds and no flags. \<open>addElement\<close> adds a count to a symbol of the
  element map.
\<close>

definition newGroup :: "nat \<Rightarrow> nat \<Rightarrow> Group" where
  "newGroup gid depth =
     \<lparr>ID = gid, elements = [], charge = 0, isRadical = False, atomicMass = None,
      isLowercase = False, chainDepth = depth, ringDigits = [], bonds = [],
      smilesStringPosition = 0, smilesStringLength = 0, isImplicit = False\<rparr>"

fun addCount :: "string \<Rightarrow> nat \<Rightarrow> (string \<times> nat) list \<Rightarrow> (string \<times> nat) list" where
  "addCount el n [] = [(el, n)]"
| "addCount el n ((k, c) # xs) = (if k = el then (k, c + n) # xs else (k, c) # addCount el n xs)"

definition addElement :: "string \<Rightarrow> nat \<Rightarrow> Group \<Rightarrow> Group" where
  "addElement el n g = g\<lparr>elements := addCount el n (elements g)\<rparr>"

section \<open>Bond records as objects: the aliasing of getAllBonds\<close>

text \<open>
  For the question whether \<open>getAllBonds\<close> hands out the stored bond records or copies,
  the bond records are objects in a heap: \<open>cells\<close> gives the record at an address,
  addresses below \<open>nextAddr\<close> are allocated, and an object literal \<open>{ ...bond }\<close> allocates
  the next address. \<open>refs\<close> gives, for a group key, the addresses of the records in the
  group's \<open>bonds\<close> array.
\<close>

record BondHeap =
  cells :: "nat \<Rightarrow> IBond"
  nextAddr :: nat

definition alloc :: "IBond \<Rightarrow> BondHeap \<Rightarrow> BondHeap \<times> nat" where
  "alloc b h = (h\<lparr>cells := (cells h)(nextAddr h := b), nextAddr := Suc (nextAddr h)\<rparr>, nextAddr h)"

text \<open>
  One pass over an array of bond records: \<open>sel\<close> decides from the record read whether a
  copy is made (and what it holds); the addresses of the copies are returned in order.
\<close>

fun copyBonds :: "(IBond \<Rightarrow> IBond option) \<Rightarrow> nat list \<Rightarrow> BondHeap \<Rightarrow> BondHeap \<times> nat list" where
  "copyBonds sel [] h = (h, [])"
| "copyBonds sel (r # rs) h =
     (case sel (cells h r) of
        None \<Rightarrow> copyBonds sel rs h
      | Some b \<Rightarrow>
          (let (h1, a) = alloc b h; (h2, as) = copyBonds sel rs h1 in (h2, a # as)))"

text \<open>The \<open>for (const gid in this.groups)\<close> loop of \<open>getAllBonds\<close>.\<close>

fun copyReversed :: "nat \<Rightarrow> (nat \<Rightarrow> nat list) \<Rightarrow> nat list \<Rightarrow> BondHeap \<Rightarrow> BondHeap \<times> nat list" where
  "copyReversed groupID refs [] h = (h, [])"
| "copyReversed groupID refs (gid # rest) h =
     (if gid = groupID then copyReversed groupID refs rest h
      else
        (let (h1, as1) = copyBonds (\<lambda>b. if dest b = groupID then Some (b\<lparr>dest := gid\<rparr>) else None)
                           (refs gid) h;
             (h2, as2) = copyReversed groupID refs rest h1
         in (h2, as1 @ as2)))"

definition getAllBonds_heap ::
    "(nat \<Rightarrow> nat list) \<Rightarrow> Molecule \<Rightarrow> nat \<Rightarrow> BondHeap \<Rightarrow> error + (BondHeap \<times> nat list)" where
  "getAllBonds_heap refs mol groupID h =
     (case map_of (groups mol) groupID of
        None \<Rightarrow> Inl TypeError
      | Some g \<Rightarrow>
          (let (h1, as1) = copyBonds Some (refs groupID) h;
               (h2, as2) = copyReversed groupID refs (map fst (groups mol)) h1
           in Inr (h2, as1 @ as2)))"

text \<open>
  \<open>stored refs mol h\<close>: the heap \<open>h\<close> holds the bond records of the molecule \<open>mol\<close>: for every
  group, the records at the addresses of its \<open>bonds\<close> array are its bonds, and those
  addresses are allocated.
\<close>

definition storedAt :: "(nat \<Rightarrow> nat list) \<Rightarrow> BondHeap \<Rightarrow> nat \<times> Group \<Rightarrow> bool" where
  "storedAt refs h kg =
     (bonds (snd kg) = map (cells h) (refs (fst kg)) \<and> list_all (\<lambda>r. r < nextAddr h) (refs (fst kg)))"

definition stored :: "(nat \<Rightarrow> nat list) \<Rightarrow> Molecule \<Rightarrow> BondHeap \<Rightarrow> bool" where
  "stored refs mol h = list_all (storedAt refs h) (groups mol)"

text \<open>
  \<open>extends h h' as\<close>: \<open>h'\<close> is \<open>h\<close> after allocating the addresses \<open>as\<close> (in increasing
  order); every record of \<open>h\<close> is unchanged.
\<close>

definition extends :: "BondHeap \<Rightarrow> BondHeap \<Rightarrow> nat list \<Rightarrow> bool" where
  "extends h h' as = (nextAddr h \<le> nextAddr h' \<and> (\<forall>a < nextAddr h. cells h' a = cells h a) \<and>
       sorted_wrt (<) as \<and> (\<forall>a \<in> set as. nextAddr h \<le> a \<and> a < nextAddr h'))"

section \<open>ParsedSMILES\<close>

text \<open>
  \<open>Ring\<close>: \<open>ringEnd\<close> is the field \<open>end\<close> (\<open>None\<close> while it is \<open>undefined\<close>); \<open>isAromatic\<close>
  is \<open>None\<close> while it is \<open>undefined\<close>.
\<close>

record Ring =
  digit :: nat
  start :: nat
  ringEnd :: "nat option"
  isAromatic :: "bool option"
  members :: "nat list"

text \<open>
  \<open>ParsedSMILES\<close>. The \<open>Group\<close> objects live in the molecules; \<open>groupMap\<close> holds the keys
  registered in it, in ascending order. \<open>Ring\<close> objects are shared between \<open>rings\<close> (here
  \<open>psRings\<close>), \<open>openRings\<close> and the molecules' \<open>rings\<close>: they live in \<open>ringObjs\<close> under
  their reference, and the three hold references. \<open>parseOptions\<close> is the options object,
  from option name to value. \<open>nextID\<close> is the counter of group identities and \<open>nextRef\<close>
  the counter of object references, which the parse threads.
\<close>

record ParsedSMILES =
  smiles :: string
  parseOptions :: "string \<Rightarrow> bool option"
  groupMap :: "nat list"
  molecules :: "Molecule list"
  openRings :: "(nat \<times> nat) list"
  psRings :: "nat list"
  reactionIndexes :: "int list"
  renderOptions :: nat
  ringObjs :: "(nat \<times> Ring) list"
  nextID :: nat
  nextRef :: nat

fun findIndex :: "('a \<Rightarrow> bool) \<Rightarrow> 'a list \<Rightarrow> nat option" where
  "findIndex P [] = None"
| "findIndex P (x # xs) = (if P x then Some 0 else map_option Suc (findIndex P xs))"

text \<open>
  \<open>ParsedSMILES.removeMolecule\<close>: \<open>m === mol\<close> compares object identities;
  \<open>splice(i, 1)\<close> removes the element at \<open>i\<close>.
\<close>

definition removeMolecule :: "ParsedSMILES \<Rightarrow> Molecule \<Rightarrow> bool \<times> ParsedSMILES" where
  "removeMolecule this mol =
     (case findIndex (\<lambda>m. molRef m = molRef mol) (molecules this) of
        None \<Rightarrow> (False, this)
      | Some i \<Rightarrow>
          (True, this\<lparr>molecules := take i (molecules this) @ drop (Suc i) (molecules this),
                      reactionIndexes := map (\<lambda>ri. if ri \<ge> int i then ri - 1 else ri) (reactionIndexes this),
                      psRings := filter (\<lambda>ring. ring \<notin> set (rings mol)) (psRings this)\<rparr>))"

section \<open>Helpers taken as parameters\<close>

text \<open>
  The result of \<open>parseInorganicString\<close>: the error message when the bracket body is
  malformed (with \<open>endIndex\<close>, where it stopped), else the elements, charge, radical flag
  and atomic mass read.
\<close>

record InorganicInfo =
  infoError :: "string option"
  endIndex :: nat
  infoElements :: "(string \<times> nat) list"
  infoCharge :: int
  infoIsRadical :: bool
  infoAtomicMass :: "rat option"

text \<open>
  The functions of \<open>utils\<close> and methods of \<open>Group\<close> that are not among the source files
  and whose behaviour the spec does not fix are parameters of the model, collected in
  \<open>Utils\<close>, together with the tables \<open>organicSubset\<close> (here \<open>subset\<close>) and
  \<open>lowercaseRingAtoms\<close> of \<open>data-vars\<close>: \<open>extractElement\<close> (\<open>None\<close> for no match),
  \<open>extractInteger\<close>, \<open>_regexNum.test\<close>, \<open>Group.getElementString(false, true)\<close>,
  \<open>Group.toString\<close>, \<open>parseChargeString\<close> (\<open>None\<close> for NaN), \<open>parseInorganicString\<close> and
  the mass \<open>masses[symbols.indexOf(el)]\<close> of an element.
\<close>

record Utils =
  subset :: organicSubset
  lowercaseRingAtoms :: "string list"
  extractElement :: "string \<Rightarrow> string option"
  extractInteger :: "string \<Rightarrow> nat"
  regexNumTest :: "string \<Rightarrow> bool"
  getElementString :: "Group \<Rightarrow> string"
  toString :: "Group \<Rightarrow> string"
  parseChargeString :: "string \<Rightarrow> int option"
  parseInorganicString :: "string \<Rightarrow> bool \<Rightarrow> InorganicInfo"
  implicitMass :: "string \<Rightarrow> rat option"

text \<open>The decimal text of a number, as string concatenation produces it.\<close>

function natStr :: "nat \<Rightarrow> string" where
  "natStr n = (if n < 10 then [char_of (48 + n)] else natStr (n div 10) @ [char_of (48 + n mod 10)])"
  by pat_completeness auto
termination
  by (relation "measure id") auto

definition intStr :: "int \<Rightarrow> string" where
  "intStr i = (if i < 0 then CHR ''-'' # natStr (nat (- i)) else natStr (nat i))"

section \<open>Molecule.countAtoms\<close>

text \<open>
  \<open>IAtomCount\<close>: \<open>ionCharge\<close> is the field \<open>charge\<close> (\<open>None\<close> is NaN) and \<open>countN\<close> the
  field \<open>count\<close>. \<open>ICountAtoms\<close>: the options, each \<open>None\<close> while it is \<open>undefined\<close>.
\<close>

record IAtomCount =
  atom :: string
  ionCharge :: "int option"
  countN :: nat

record ICountAtoms =
  splitGroups :: "bool option"
  hillSystemOrder :: "bool option"
  ignoreCharge :: "bool option"

text \<open>The key \<open>str + '{' + charge + '}'\<close> of \<open>elementsPos\<close>.\<close>

definition chargeStr :: "string \<Rightarrow> int option \<Rightarrow> string" where
  "chargeStr s c = s @ ''{'' @ (case c of None \<Rightarrow> ''NaN'' | Some i \<Rightarrow> intStr i) @ ''}''"

fun indexOf :: "'a list \<Rightarrow> 'a \<Rightarrow> nat option" where
  "indexOf [] x = None"
| "indexOf (y # ys) x = (if y = x then Some 0 else map_option Suc (indexOf ys x))"

text \<open>\<open>atoms[i].count += n\<close>.\<close>

definition addCountAt :: "nat \<Rightarrow> nat \<Rightarrow> IAtomCount list \<Rightarrow> IAtomCount list" where
  "addCountAt i n as = as[i := (as ! i)\<lparr>countN := countN (as ! i) + n\<rparr>]"

text \<open>
  The body of the first loop for one group; the state is \<open>(atoms, elementsPos)\<close>. When
  groups are split, \<open>atoms[element]\<close> reads a property of the array named by an element
  symbol, which is \<open>undefined\<close>, so an entry is pushed for every element of every group
  (with charge NaN) and receives the count. Otherwise the entry of the group's element
  string and charge is looked up in \<open>elementsPos\<close> (\<open>atoms[-1]\<close> is \<open>undefined\<close>).
\<close>

definition tallyGroup ::
    "Utils \<Rightarrow> bool \<Rightarrow> bool \<Rightarrow> Group \<Rightarrow> IAtomCount list \<times> string list \<Rightarrow> IAtomCount list \<times> string list" where
  "tallyGroup u split ignore g st =
     (let groupCharge = (if ignore then 0 else charge g) in
      if split then
        fold (\<lambda>(element, n) (atoms, elementsPos).
                (atoms @ [\<lparr>atom = element, ionCharge = None, countN = n\<rparr>],
                 elementsPos @ [chargeStr element (Some groupCharge)]))
             (elements g) st
      else
        (let (atoms, elementsPos) = st;
             str = getElementString u g;
             cs = chargeStr str (Some groupCharge)
         in case indexOf elementsPos cs of
              None \<Rightarrow> (atoms @ [\<lparr>atom = str, ionCharge = Some groupCharge, countN = 1\<rparr>], elementsPos @ [cs])
            | Some i \<Rightarrow> (addCountAt i 1 atoms, elementsPos)))"

text \<open>
  The loop that deconstructs numbered atoms when groups are split; the state is
  \<open>(newAtoms, elementsPos)\<close>. \<open>extractElement\<close> finding no element makes \<open>atom.length\<close> a
  \<open>TypeError\<close>.
\<close>

fun splitNumbered :: "Utils \<Rightarrow> IAtomCount list \<Rightarrow> IAtomCount list \<times> string list \<Rightarrow> error + IAtomCount list" where
  "splitNumbered u [] (newAtoms, elementsPos) = Inr newAtoms"
| "splitNumbered u (g # rest) (newAtoms, elementsPos) =
     (if regexNumTest u (atom g) then
        (case extractElement u (atom g) of
           None \<Rightarrow> Inl TypeError
         | Some a \<Rightarrow>
             (let n = extractInteger u (drop (length a) (atom g));
                  str = chargeStr a (ionCharge g)
              in case indexOf elementsPos str of
                   None \<Rightarrow> splitNumbered u rest
                             (newAtoms @ [\<lparr>atom = a, ionCharge = None, countN = n\<rparr>], elementsPos @ [str])
                 | Some i \<Rightarrow> splitNumbered u rest (addCountAt i n newAtoms, elementsPos)))
      else
        (let str = chargeStr (atom g) (ionCharge g)
         in case indexOf elementsPos str of
              None \<Rightarrow> splitNumbered u rest (newAtoms @ [g], elementsPos @ [str])
            | Some i \<Rightarrow> splitNumbered u rest (addCountAt i (countN g) newAtoms, elementsPos)))"

text \<open>
  \<open>sort((a, b) => a.charge - b.charge)\<close>. \<open>chargeAfter a b\<close> is the comparator's result
  being positive; a NaN result counts as 0. The sort is stable, which for a comparator
  that is an order fixes its result: it is insertion from the right.
\<close>

definition chargeAfter :: "IAtomCount \<Rightarrow> IAtomCount \<Rightarrow> bool" where
  "chargeAfter a b = (case (ionCharge a, ionCharge b) of (Some x, Some y) \<Rightarrow> x - y > 0 | _ \<Rightarrow> False)"

fun insertByCharge :: "IAtomCount \<Rightarrow> IAtomCount list \<Rightarrow> IAtomCount list" where
  "insertByCharge a [] = [a]"
| "insertByCharge a (b # bs) = (if chargeAfter a b then b # insertByCharge a bs else a # b # bs)"

definition sortByCharge :: "IAtomCount list \<Rightarrow> IAtomCount list" where
  "sortByCharge as = foldr insertByCharge as []"

text \<open>
  The loop that extracts the ions of each remaining element: \<open>elements\<close> (here \<open>els\<close>)
  maps an element to its entries, \<open>elementKeys\<close> lists the elements met.
\<close>

fun groupIons ::
    "IAtomCount list \<Rightarrow> (string \<times> IAtomCount list) list \<times> string list \<Rightarrow>
       (string \<times> IAtomCount list) list \<times> string list" where
  "groupIons [] st = st"
| "groupIons (g # rest) (els, elementKeys) =
     (case map_of els (atom g) of
        None \<Rightarrow> groupIons rest (els @ [(atom g, [g])], elementKeys @ [atom g])
      | Some ions \<Rightarrow> groupIons rest (map (\<lambda>(k, v). if k = atom g then (k, v @ [g]) else (k, v)) els, elementKeys))"

text \<open>
  The Hill-system branch: carbons are taken out from the back of \<open>atoms\<close> and sorted by
  charge, then hydrogens, then the other elements grouped, each group sorted by charge,
  the element keys sorted by \<open>sort()\<close> (the order of the strings' code units).
\<close>

definition hillOrder :: "IAtomCount list \<Rightarrow> IAtomCount list" where
  "hillOrder atoms =
     (let carbons = rev (filter (\<lambda>a. atom a = ''C'') atoms);
          atoms1 = filter (\<lambda>a. atom a \<noteq> ''C'') atoms;
          hydrogens = rev (filter (\<lambda>a. atom a = ''H'') atoms1);
          atoms2 = filter (\<lambda>a. atom a \<noteq> ''H'') atoms1;
          (els, elementKeys) = groupIons atoms2 ([], []);
          els' = map (\<lambda>(k, v). (k, sortByCharge v)) els
      in sortByCharge carbons @ sortByCharge hydrogens @
         concat (map (\<lambda>e. case map_of els' e of None \<Rightarrow> [] | Some ions \<Rightarrow> ions) (sort elementKeys)))"

definition countAtoms :: "Utils \<Rightarrow> ICountAtoms \<Rightarrow> Molecule \<Rightarrow> error + IAtomCount list" where
  "countAtoms u opts mol =
     (let split = (case splitGroups opts of None \<Rightarrow> False | Some b \<Rightarrow> b);
          hill = (case hillSystemOrder opts of None \<Rightarrow> True | Some b \<Rightarrow> b);
          ignore = (case ignoreCharge opts of None \<Rightarrow> False | Some b \<Rightarrow> b);
          atoms = fst (fold (\<lambda>kg. tallyGroup u split ignore (snd kg)) (groups mol) ([], []))
      in case (if split then splitNumbered u atoms ([], []) else Inr atoms) of
           Inl e \<Rightarrow> Inl e
         | Inr atoms' \<Rightarrow> Inr (if hill then hillOrder atoms' else atoms'))"

text \<open>
  The Hill order of two entries: carbon before hydrogen before the other elements; among
  the others the element strings ascend; entries of one element ascend by charge
  (\<open>chargeLe\<close>; two entries whose charge is NaN are in order either way).
\<close>

definition hillRank :: "IAtomCount \<Rightarrow> nat" where
  "hillRank a = (if atom a = ''C'' then 0 else if atom a = ''H'' then 1 else 2)"

definition chargeLe :: "IAtomCount \<Rightarrow> IAtomCount \<Rightarrow> bool" where
  "chargeLe a b = (case (ionCharge a, ionCharge b) of (Some x, Some y) \<Rightarrow> x \<le> y | _ \<Rightarrow> True)"

definition hillBefore :: "IAtomCount \<Rightarrow> IAtomCount \<Rightarrow> bool" where
  "hillBefore a b =
     (hillRank a < hillRank b \<or>
      (hillRank a = hillRank b \<and> (atom a < atom b \<or> (atom a = atom b \<and> chargeLe a b))))"

text \<open>All charges NaN (groups split) or all charges numbers (groups whole).\<close>

definition uniformCharges :: "IAtomCount list \<Rightarrow> bool" where
  "uniformCharges as = (list_all (\<lambda>a. ionCharge a = None) as \<or> list_all (\<lambda>a. ionCharge a \<noteq> None) as)"

text \<open>One block per element key: the entries of that element, sorted by charge.\<close>

definition blocks :: "IAtomCount list \<Rightarrow> string list \<Rightarrow> IAtomCount list" where
  "blocks as ks = concat (map (\<lambda>k. sortByCharge (filter (\<lambda>a. atom a = k) as)) ks)"

section \<open>A concrete set of helpers\<close>

text \<open>
  Modelled from the spec: the tables \<open>organicSubset\<close> and \<open>lowercaseRingAtoms\<close> of
  \<open>data-vars\<close>, which are not among the source files. The spec describes the organic
  subset as the fixed set of elements that may appear unbracketed, with their allowed
  valences, and the lowercase symbols as a fixed whitelist of aromatic shorthand; the
  values are those of the SMILES notation: B 3, C 4, N 3 or 5, O 2, P 3 or 5, S 2, 4 or 6,
  the halogens 1, and the lowercase symbols b, c, n, o, p, s.
\<close>

definition stdSubset :: organicSubset where
  "stdSubset el =
     (if el = ''B'' then Some [Num 3] else if el = ''C'' then Some [Num 4]
      else if el = ''N'' then Some [Num 3, Num 5] else if el = ''O'' then Some [Num 2]
      else if el = ''P'' then Some [Num 3, Num 5] else if el = ''S'' then Some [Num 2, Num 4, Num 6]
      else if el = ''F'' \<or> el = ''Cl'' \<or> el = ''Br'' \<or> el = ''I'' then Some [Num 1]
      else None)"

definition stdLowercase :: "string list" where
  "stdLowercase = [''b'', ''c'', ''n'', ''o'', ''p'', ''s'']"

text \<open>
  Modelled from the spec: \<open>extractElement\<close> of \<open>utils\<close> on the text of a bare atom. A bare
  atom matches a two-letter organic-subset element, a one-letter organic-subset element or
  a lowercase aromatic symbol, the longest match winning.
\<close>

definition stdExtractElement :: "string \<Rightarrow> string option" where
  "stdExtractElement s =
     (if 2 \<le> length s \<and> stdSubset (take 2 s) \<noteq> None then Some (take 2 s)
      else if 1 \<le> length s \<and> (stdSubset (take 1 s) \<noteq> None \<or> take 1 s \<in> set stdLowercase)
      then Some (take 1 s)
      else None)"

text \<open>
  Modelled from the spec: the text of a group. \<open>getElementString\<close> writes each element
  symbol, followed by its count when that is not 1. \<open>toString\<close> writes a group of one
  atom of one element without charge, radical flag or mass as its symbol, in lowercase
  for an aromatic shorthand atom, and any other group as its element string in brackets.
  \<open>_regexNum\<close> matches a decimal digit, and \<open>extractInteger\<close> reads the leading digits.
\<close>

definition isDigit :: "char \<Rightarrow> bool" where
  "isDigit c = (CHR ''0'' \<le> c \<and> c \<le> CHR ''9'')"

definition digitValue :: "char \<Rightarrow> nat" where
  "digitValue c = of_char c - 48"

definition toLowerCase :: "char \<Rightarrow> char" where
  "toLowerCase c = (if CHR ''A'' \<le> c \<and> c \<le> CHR ''Z'' then char_of (of_char c + (32 :: nat)) else c)"

definition stdElementString :: "Group \<Rightarrow> string" where
  "stdElementString g = concat (map (\<lambda>(el, n). if n = 1 then el else el @ natStr n) (elements g))"

definition stdToString :: "Group \<Rightarrow> string" where
  "stdToString g =
     (case elements g of
        [(el, n)] \<Rightarrow>
          if n = 1 \<and> charge g = 0 \<and> \<not> isRadical g \<and> atomicMass g = None
          then (if isLowercase g then map toLowerCase el else el)
          else ''['' @ stdElementString g @ '']''
      | _ \<Rightarrow> ''['' @ stdElementString g @ '']'')"

definition stdExtractInteger :: "string \<Rightarrow> nat" where
  "stdExtractInteger s = foldl (\<lambda>n c. 10 * n + digitValue c) 0 (takeWhile isDigit s)"

text \<open>
  The spec does not give the grammar of a charge clause nor the element table that a
  bracket atom is read against: in this set of helpers \<open>parseChargeString\<close> reads no
  charge and \<open>parseInorganicString\<close> reports an error, and no mass is known. The inputs
  evaluated with it hold no brace and no bracket.
\<close>

definition plainUtils :: Utils where
  "plainUtils =
     \<lparr>subset = stdSubset, lowercaseRingAtoms = stdLowercase,
      extractElement = stdExtractElement, extractInteger = stdExtractInteger,
      regexNumTest = list_ex isDigit, getElementString = stdElementString,
      toString = stdToString, parseChargeString = (\<lambda>s. None),
      parseInorganicString = (\<lambda>s r. \<lparr>infoError = Some ''Syntax Error'', endIndex = 0,
         infoElements = [], infoCharge = 0, infoIsRadical = False, infoAtomicMass = None\<rparr>),
      implicitMass = (\<lambda>el. None)\<rparr>"

section \<open>Concrete inputs\<close>

text \<open>
  A table whose entry for the wildcard atom \<open>*\<close> has no numeric valence, and the molecule
  of one such atom.
\<close>

definition wildcardSubset :: organicSubset where
  "wildcardSubset el = (if el = ''*'' then Some [NaN] else None)"

definition wildcardAtom :: Group where
  "wildcardAtom = addElement ''*'' 1 (newGroup 0 0)"

definition wildcardMolecule :: Molecule where
  "wildcardMolecule = \<lparr>molRef = 0, groups = [(0, wildcardAtom)], rings = []\<rparr>"

text \<open>Carbon with valence 4 only, and one carbon atom without bonds.\<close>

definition carbonSubset :: organicSubset where
  "carbonSubset el = (if el = ''C'' then Some [Num 4] else None)"

definition carbonAtom :: Group where
  "carbonAtom = addElement ''C'' 1 (newGroup 0 0)"

definition carbonMolecule :: Molecule where
  "carbonMolecule = \<lparr>molRef = 0, groups = [(0, carbonAtom)], rings = []\<rparr>"

text \<open>
  Two groups 0 and 1, group 0 holding one single bond to group 1, stored at address 0 of
  a heap with one allocated record.
\<close>

definition pairMolecule :: Molecule where
  "pairMolecule =
     \<lparr>molRef = 0,
      groups = [(0, (newGroup 0 0)\<lparr>bonds := [\<lparr>bond = CHR ''-'', dest = 1\<rparr>]\<rparr>), (1, newGroup 1 0)],
      rings = []\<rparr>"

definition pairRefs :: "nat \<Rightarrow> nat list" where
  "pairRefs k = (if k = 0 then [0] else [])"

definition pairHeap :: BondHeap where
  "pairHeap = \<lparr>cells = (\<lambda>a. \<lparr>bond = CHR ''-'', dest = 1\<rparr>), nextAddr = 1\<rparr>"

text \<open>
  A parse result of two molecules (references 1 and 2, the first owning ring 5), with the
  reaction boundary after the first, and a molecule that is not in it.
\<close>

definition twoMolecules :: ParsedSMILES where
  "twoMolecules =
     \<lparr>smiles = ''C>>C'', parseOptions = (\<lambda>k. None), groupMap = [],
      molecules = [\<lparr>molRef = 1, groups = [], rings = [5]\<rparr>, \<lparr>molRef = 2, groups = [], rings = []\<rparr>],
      openRings = [], psRings = [5, 6], reactionIndexes = [0, 0], renderOptions = 0,
      ringObjs = [], nextID = 0, nextRef = 7\<rparr>"

definition strangerMolecule :: Molecule where
  "strangerMolecule = \<lparr>molRef = 3, groups = [], rings = []\<rparr>"

text \<open>An oxide ion, a carbon and a hydrogen, in this key order.\<close>

definition threeAtoms :: Molecule where
  "threeAtoms =
     \<lparr>molRef = 0,
      groups = [(0, (addElement ''O'' 1 (newGroup 0 0))\<lparr>charge := - 1\<rparr>),
                (1, addElement ''C'' 1 (newGroup 1 0)),
                (2, addElement ''H'' 1 (newGroup 2 0))],
      rings = []\<rparr>"

definition defaultCount :: ICountAtoms where
  "defaultCount = \<lparr>splitGroups = None, hillSystemOrder = None, ignoreCharge = None\<rparr>"

section \<open>Properties of checkBondCounts\<close>

text \<open>
  A group violates the valence check when its bond count is computed and \<open>invalidCount\<close>
  holds of it.
\<close>

definition violation :: "organicSubset \<Rightarrow> Molecule \<Rightarrow> Group \<Rightarrow> bool" where
  "violation os mol g =
     (case getBondCount mol (ID g) of Inl e \<Rightarrow> False | Inr n \<Rightarrow> invalidCount os g n)"

lemma sorted_keys_distinct: "sorted_wrt (<) (ks :: nat list) \<Longrightarrow> distinct ks"
  by (induction ks) auto

lemma wf_groups_map_of:
  assumes "wf_groups gs" and "(k, g) \<in> set gs"
  shows "map_of gs k = Some g"
proof -
  from assms(1) have "distinct (map fst gs)"
    by (simp add: wf_groups_def sorted_keys_distinct)
  with assms(2) show ?thesis by simp
qed

lemma wf_groups_ID: "wf_groups gs \<Longrightarrow> (k, g) \<in> set gs \<Longrightarrow> ID g = k"
  by (auto simp: wf_groups_def list_all_iff)

lemma wf_getBondCount:
  assumes "wf_groups (groups mol)" and "kg \<in> set (groups mol)"
  shows "\<exists>n. getBondCount mol (ID (snd kg)) = Inr n"
proof -
  obtain k g where kg: "kg = (k, g)" by (cases kg)
  with assms have "map_of (groups mol) (ID g) = Some g"
    using wf_groups_map_of wf_groups_ID by metis
  then show ?thesis by (simp add: getBondCount_def kg)
qed

lemma inOrganicSubset_first:
  "inOrganicSubset os g \<Longrightarrow> \<exists>el vs. firstElement g = Some el \<and> os el = Some vs"
  by (auto simp: inOrganicSubset_def firstElement_def split: list.splits prod.splits)

lemma checkBondCounts_loop_skip:
  assumes "\<forall>kg \<in> set pre. (\<exists>n. getBondCount mol (ID (snd kg)) = Inr n) \<and> \<not> violation os mol (snd kg)"
  shows "checkBondCounts_loop os mol (pre @ rest) = checkBondCounts_loop os mol rest"
  using assms
proof (induction pre)
  case Nil
  then show ?case by simp
next
  case (Cons a pre)
  obtain k g where a: "a = (k, g)" by (cases a)
  from Cons.prems a obtain n where n: "getBondCount mol (ID g) = Inr n" by auto
  from Cons.prems a n have nv: "\<not> invalidCount os g n" by (simp add: violation_def)
  have IH: "checkBondCounts_loop os mol (pre @ rest) = checkBondCounts_loop os mol rest"
    using Cons by simp
  show ?case
  proof (cases "charge g = 0 \<and> \<not> isRadical g \<and> inOrganicSubset os g")
    case True
    then obtain el vs where e: "firstElement g = Some el" "os el = Some vs"
      using inOrganicSubset_first by blast
    show ?thesis using True e n nv IH a by (auto simp add: invalidCount_def)
  next
    case False
    then show ?thesis using n IH a by auto
  qed
qed

lemma checkBondCounts_loop_hit:
  assumes "getBondCount mol (ID g) = Inr n" and "invalidCount os g n" and "firstElement g = Some el"
  shows "checkBondCounts_loop os mol ((k, g) # rest) =
           Inr (Invalid g el (AdvError ''Bond Error: invalid bond count for organic atom''
                  (smilesStringPosition g)))"
  using assms by (auto simp: invalidCount_def split: option.splits)

text \<open>
  C4 (as amended). On a molecule whose keys are its groups' IDs, \<open>checkBondCounts\<close> never
  raises. It returns \<open>true\<close> when no group violates the check; otherwise it returns the
  object for the first group, in key order, that is neutral, not a radical, in the organic
  subset, whose element's first listed valence is a number and whose bond count is none
  of the listed valences: the object holds that group, its element and an error whose
  column is the group's position in the source string. A charged or radical group or one
  outside the organic subset is never reported.
\<close>

theorem checkBondCounts_first_violation:
  assumes "wf_groups (groups mol)"
  shows "(checkBondCounts os mol = Inr Valid \<and>
            (\<forall>kg \<in> set (groups mol). \<not> violation os mol (snd kg))) \<or>
         (\<exists>pre g post el. groups mol = pre @ (ID g, g) # post \<and>
            (\<forall>kg \<in> set pre. \<not> violation os mol (snd kg)) \<and>
            violation os mol g \<and> charge g = 0 \<and> \<not> isRadical g \<and> inOrganicSubset os g \<and>
            firstElement g = Some el \<and>
            checkBondCounts os mol =
              Inr (Invalid g el (AdvError ''Bond Error: invalid bond count for organic atom''
                     (smilesStringPosition g))))"
proof (cases "\<exists>kg \<in> set (groups mol). violation os mol (snd kg)")
  case False
  then have "\<forall>kg \<in> set (groups mol). (\<exists>n. getBondCount mol (ID (snd kg)) = Inr n) \<and> \<not> violation os mol (snd kg)"
    using wf_getBondCount [OF assms] by blast
  from checkBondCounts_loop_skip [OF this, of "[]"] have "checkBondCounts os mol = Inr Valid"
    by (simp add: checkBondCounts_def)
  with False show ?thesis by blast
next
  case True
  then obtain pre kg post where split: "groups mol = pre @ kg # post"
    and hit: "violation os mol (snd kg)" and before: "\<forall>y \<in> set pre. \<not> violation os mol (snd y)"
    using split_list_first_prop [of "groups mol" "\<lambda>kg. violation os mol (snd kg)"] by blast
  obtain k g where kg: "kg = (k, g)" by (cases kg)
  have k: "k = ID g" using wf_groups_ID [OF assms, of k g] split kg by simp
  from hit kg obtain n where n: "getBondCount mol (ID g) = Inr n" and inv: "invalidCount os g n"
    by (auto simp: violation_def split: sum.splits)
  from inv obtain el where el: "firstElement g = Some el"
    by (auto simp: invalidCount_def split: option.splits)
  have "\<forall>y \<in> set pre. (\<exists>n. getBondCount mol (ID (snd y)) = Inr n) \<and> \<not> violation os mol (snd y)"
    using wf_getBondCount [OF assms] before split by auto
  from checkBondCounts_loop_skip [OF this, of "kg # post"]
  have "checkBondCounts os mol =
          Inr (Invalid g el (AdvError ''Bond Error: invalid bond count for organic atom''
                 (smilesStringPosition g)))"
    using checkBondCounts_loop_hit [OF n inv el] split kg by (simp add: checkBondCounts_def)
  moreover have "charge g = 0 \<and> \<not> isRadical g \<and> inOrganicSubset os g"
    using inv by (simp add: invalidCount_def)
  ultimately have "groups mol = pre @ (ID g, g) # post \<and>
            (\<forall>kg \<in> set pre. \<not> violation os mol (snd kg)) \<and>
            violation os mol g \<and> charge g = 0 \<and> \<not> isRadical g \<and> inOrganicSubset os g \<and>
            firstElement g = Some el \<and>
            checkBondCounts os mol =
              Inr (Invalid g el (AdvError ''Bond Error: invalid bond count for organic atom''
                     (smilesStringPosition g)))"
    using split kg k before hit el by simp
  then show ?thesis by blast
qed

theorem checkBondCounts_first_violation_witness:
  "wf_groups (groups carbonMolecule) \<and>
   ((checkBondCounts carbonSubset carbonMolecule = Inr Valid \<and>
       (\<forall>kg \<in> set (groups carbonMolecule). \<not> violation carbonSubset carbonMolecule (snd kg))) \<or>
    (\<exists>pre g post el. groups carbonMolecule = pre @ (ID g, g) # post \<and>
       (\<forall>kg \<in> set pre. \<not> violation carbonSubset carbonMolecule (snd kg)) \<and>
       violation carbonSubset carbonMolecule g \<and> charge g = 0 \<and> \<not> isRadical g \<and>
       inOrganicSubset carbonSubset g \<and> firstElement g = Some el \<and>
       checkBondCounts carbonSubset carbonMolecule =
         Inr (Invalid g el (AdvError ''Bond Error: invalid bond count for organic atom''
                (smilesStringPosition g)))))"
proof -
  have wf: "wf_groups (groups carbonMolecule)"
    by (simp add: wf_groups_def carbonMolecule_def carbonAtom_def addElement_def newGroup_def)
  from checkBondCounts_first_violation [OF wf, of carbonSubset] wf show ?thesis by simp
qed

text \<open>
  The claim as stated, without the test on the first listed valence, fails: with a table
  whose entry for \<open>*\<close> is \<open>[NaN]\<close>, the one atom of the molecule is neutral, not a radical
  and in the organic subset, its bond count 0 is none of its listed valences, and
  \<open>checkBondCounts\<close> returns \<open>true\<close>.
\<close>

theorem checkBondCounts_NaN_counterexample:
  "charge wildcardAtom = 0 \<and> \<not> isRadical wildcardAtom \<and>
   inOrganicSubset wildcardSubset wildcardAtom \<and>
   firstElement wildcardAtom = Some ''*'' \<and> wildcardSubset ''*'' = Some [NaN] \<and>
   getBondCount wildcardMolecule (ID wildcardAtom) = Inr 0 \<and>
   \<not> list_ex (\<lambda>v. num_eq v 0) [NaN] \<and>
   checkBondCounts wildcardSubset wildcardMolecule = Inr Valid"
  by (simp add: checkBondCounts_def wildcardMolecule_def wildcardAtom_def addElement_def newGroup_def
      getBondCount_def inOrganicSubset_def firstElement_def wildcardSubset_def)

section \<open>Properties of getAllBonds\<close>

lemma extends_trans:
  "extends h h1 as1 \<Longrightarrow> extends h1 h2 as2 \<Longrightarrow> extends h h2 (as1 @ as2)"
  by (fastforce simp: extends_def sorted_wrt_append)

lemma extends_keeps:
  assumes "extends h h1 as1" and "extends h1 h2 as2"
  shows "map (cells h2) as1 = map (cells h1) as1"
proof -
  have "\<forall>a \<in> set as1. cells h2 a = cells h1 a"
    using assms by (simp add: extends_def)
  then show ?thesis by auto
qed

lemma copyBonds_extends:
  "copyBonds sel rs h = (h', as) \<Longrightarrow> extends h h' as"
proof (induction rs arbitrary: h h' as)
  case Nil
  then show ?case by (simp add: extends_def)
next
  case (Cons r rs)
  show ?case
  proof (cases "sel (cells h r)")
    case None
    with Cons show ?thesis by simp
  next
    case (Some b)
    obtain h2 as2 where rec: "copyBonds sel rs (fst (alloc b h)) = (h2, as2)" by fastforce
    from Cons.IH [OF rec] have e2: "extends (fst (alloc b h)) h2 as2" .
    have e1: "extends h (fst (alloc b h)) [nextAddr h]" by (simp add: extends_def alloc_def)
    from Cons.prems Some rec have "h' = h2" "as = nextAddr h # as2"
      by (auto simp: alloc_def Let_def split: prod.splits)
    with extends_trans [OF e1 e2] show ?thesis by simp
  qed
qed

lemma copyBonds_values:
  "copyBonds sel rs h = (h', as) \<Longrightarrow> \<forall>r \<in> set rs. r < nextAddr h \<Longrightarrow>
     map (cells h') as = List.map_filter sel (map (cells h) rs)"
proof (induction rs arbitrary: h h' as)
  case Nil
  then show ?case by simp
next
  case (Cons r rs)
  show ?case
  proof (cases "sel (cells h r)")
    case None
    with Cons show ?thesis by simp
  next
    case (Some b)
    let ?h1 = "fst (alloc b h)"
    obtain h2 as2 where rec: "copyBonds sel rs ?h1 = (h2, as2)" by fastforce
    have lt: "\<forall>r \<in> set rs. r < nextAddr ?h1" using Cons.prems(2) by (auto simp: alloc_def)
    from Cons.IH [OF rec lt] have v: "map (cells h2) as2 = List.map_filter sel (map (cells ?h1) rs)" .
    have same: "map (cells ?h1) rs = map (cells h) rs"
      using Cons.prems(2) by (auto simp: alloc_def)
    from copyBonds_extends [OF rec] have "cells h2 (nextAddr h) = b"
      by (auto simp: extends_def alloc_def)
    moreover from Cons.prems Some rec have "h' = h2" "as = nextAddr h # as2"
      by (auto simp: alloc_def Let_def split: prod.splits)
    ultimately show ?thesis using v same Some by simp
  qed
qed


lemma storedAt_extends:
  assumes "storedAt refs h kg" and "extends h h1 as"
  shows "storedAt refs h1 kg"
proof -
  from assms(1) have low: "\<forall>r \<in> set (refs (fst kg)). r < nextAddr h"
    by (simp add: storedAt_def list_all_iff)
  with assms(2) have "\<forall>r \<in> set (refs (fst kg)). cells h1 r = cells h r \<and> r < nextAddr h1"
    by (fastforce simp: extends_def)
  then have "map (cells h1) (refs (fst kg)) = map (cells h) (refs (fst kg))"
    and "\<forall>r \<in> set (refs (fst kg)). r < nextAddr h1" by auto
  with assms(1) show ?thesis by (simp add: storedAt_def list_all_iff)
qed

lemma stored_extends:
  "stored refs mol h \<Longrightarrow> extends h h1 as \<Longrightarrow> stored refs mol h1"
  unfolding stored_def list_all_iff using storedAt_extends by blast

lemma map_filter_reversed:
  "List.map_filter (\<lambda>b. if dest b = groupID then Some (b\<lparr>dest := gid\<rparr>) else None) bs =
     map (\<lambda>b. b\<lparr>dest := gid\<rparr>) (filter (\<lambda>b. dest b = groupID) bs)"
  by (induction bs) simp_all

lemma copyReversed_extends_values:
  "copyReversed groupID refs (map fst gs) h = (h', as) \<Longrightarrow>
   list_all (storedAt refs h) gs \<Longrightarrow>
   extends h h' as \<and> map (cells h') as = concat (map (reversedBonds groupID) gs)"
proof (induction gs arbitrary: h h' as)
  case Nil
  then show ?case by (simp add: extends_def)
next
  case (Cons kg gs)
  obtain gid g where kg: "kg = (gid, g)" by (cases kg)
  have inv: "list_all (storedAt refs h) gs"
    using Cons.prems(2) by simp
  show ?case
  proof (cases "gid = groupID")
    case True
    with Cons.prems kg have "copyReversed groupID refs (map fst gs) h = (h', as)" by simp
    from Cons.IH [OF this inv] show ?thesis using True kg by (simp add: reversedBonds_def)
  next
    case False
    let ?sel = "\<lambda>b. if dest b = groupID then Some (b\<lparr>dest := gid\<rparr>) else None"
    obtain h1 as1 where c1: "copyBonds ?sel (refs gid) h = (h1, as1)" by fastforce
    obtain h2 as2 where c2: "copyReversed groupID refs (map fst gs) h1 = (h2, as2)" by fastforce
    from Cons.prems(1) False kg c1 c2 have res: "h' = h2" "as = as1 @ as2" by auto
    have e1: "extends h h1 as1" using copyBonds_extends [OF c1] .
    have own: "bonds g = map (cells h) (refs gid)" "\<forall>r \<in> set (refs gid). r < nextAddr h"
      using Cons.prems(2) kg by (auto simp: storedAt_def list_all_iff)
    have v1: "map (cells h1) as1 = reversedBonds groupID kg"
      using copyBonds_values [OF c1 own(2)] own(1) False kg
      by (simp add: map_filter_reversed reversedBonds_def)
    have inv1: "list_all (storedAt refs h1) gs"
      using inv e1 storedAt_extends unfolding list_all_iff by blast
    from Cons.IH [OF c2 inv1] have e2: "extends h1 h2 as2"
      and v2: "map (cells h2) as2 = concat (map (reversedBonds groupID) gs)" by simp_all
    have "map (cells h2) as1 = map (cells h1) as1"
      using extends_keeps [OF e1 e2] .
    with v1 v2 extends_trans [OF e1 e2] res show ?thesis by simp
  qed
qed

lemma stored_mutate_fresh:
  assumes "stored refs mol h" and "extends h h' as" and "a \<in> set as"
  shows "stored refs mol (h'\<lparr>cells := (cells h')(a := b)\<rparr>)"
proof -
  from assms(2,3) have a: "nextAddr h \<le> a" by (simp add: extends_def)
  from stored_extends [OF assms(1,2)] have s': "stored refs mol h'" .
  have "storedAt refs (h'\<lparr>cells := (cells h')(a := b)\<rparr>) kg" if kg: "kg \<in> set (groups mol)" for kg
  proof -
    from assms(1) kg have low: "\<forall>r \<in> set (refs (fst kg)). r < nextAddr h"
      by (simp add: stored_def storedAt_def list_all_iff)
    with a have "\<forall>r \<in> set (refs (fst kg)). r \<noteq> a" by auto
    then have "map ((cells h')(a := b)) (refs (fst kg)) = map (cells h') (refs (fst kg))"
      by auto
    moreover from s' kg have "storedAt refs h' kg" by (simp add: stored_def list_all_iff)
    ultimately show ?thesis by (simp add: storedAt_def)
  qed
  then show ?thesis by (simp add: stored_def list_all_iff)
qed

lemma extends_fresh: "extends h h' as \<Longrightarrow> distinct as \<and> (\<forall>a \<in> set as. nextAddr h \<le> a)"
  by (auto simp: extends_def strict_sorted_iff)

text \<open>
  C9. For a group key of the molecule, \<open>getAllBonds\<close> returns the group's own bonds followed,
  for every other key in ascending order, by the bonds stored on that group whose
  destination is the group, with \<open>dest\<close> rewritten to that key. The records returned are
  newly allocated: their addresses are distinct and none is an address of the heap before
  the call, so that after writing any record to a returned address the heap still holds
  the stored bonds of every group of the molecule.
\<close>

theorem getAllBonds_fresh_copies:
  assumes "stored refs mol h" and "map_of (groups mol) groupID = Some g"
  shows "\<exists>h' as. getAllBonds_heap refs mol groupID h = Inr (h', as) \<and>
           map (cells h') as =
             bonds g @ concat (map (\<lambda>kg. if fst kg = groupID then []
                 else map (\<lambda>b. b\<lparr>dest := fst kg\<rparr>) (filter (\<lambda>b. dest b = groupID) (bonds (snd kg))))
               (groups mol)) \<and>
           getAllBonds mol groupID = Inr (map (cells h') as) \<and>
           distinct as \<and> (\<forall>a \<in> set as. nextAddr h \<le> a) \<and>
           (\<forall>a \<in> set as. \<forall>b. stored refs mol (h'\<lparr>cells := (cells h')(a := b)\<rparr>))"
proof -
  obtain h1 as1 where c1: "copyBonds Some (refs groupID) h = (h1, as1)" by fastforce
  obtain h2 as2 where c2: "copyReversed groupID refs (map fst (groups mol)) h1 = (h2, as2)" by fastforce
  have res: "getAllBonds_heap refs mol groupID h = Inr (h2, as1 @ as2)"
    using assms(2) c1 c2 by (simp add: getAllBonds_heap_def)
  have mem: "(groupID, g) \<in> set (groups mol)" using assms(2) by (rule map_of_SomeD)
  have own: "bonds g = map (cells h) (refs groupID)" "\<forall>r \<in> set (refs groupID). r < nextAddr h"
    using assms(1) mem by (auto simp: stored_def storedAt_def list_all_iff)
  have e1: "extends h h1 as1" using copyBonds_extends [OF c1] .
  have v1: "map (cells h1) as1 = bonds g"
    using copyBonds_values [OF c1 own(2)] own(1)
    by (simp add: List.map_filter_def comp_def)
  have "stored refs mol h1" using stored_extends [OF assms(1) e1] .
  then have inv1: "list_all (storedAt refs h1) (groups mol)"
    by (simp add: stored_def)
  from copyReversed_extends_values [OF c2 inv1] have e2: "extends h1 h2 as2"
    and v2: "map (cells h2) as2 = concat (map (reversedBonds groupID) (groups mol))" by simp_all
  have "map (cells h2) as1 = map (cells h1) as1"
    using extends_keeps [OF e1 e2] .
  with v1 v2 have vals: "map (cells h2) (as1 @ as2) =
      bonds g @ concat (map (reversedBonds groupID) (groups mol))" by simp
  have e: "extends h h2 (as1 @ as2)" using extends_trans [OF e1 e2] .
  have "\<forall>a \<in> set (as1 @ as2). \<forall>b. stored refs mol (h2\<lparr>cells := (cells h2)(a := b)\<rparr>)"
    using stored_mutate_fresh [OF assms(1) e] by blast
  moreover have "getAllBonds mol groupID = Inr (map (cells h2) (as1 @ as2))"
    using vals assms(2) by (simp add: getAllBonds_def)
  moreover have "map (cells h2) (as1 @ as2) =
             bonds g @ concat (map (\<lambda>kg. if fst kg = groupID then []
                 else map (\<lambda>b. b\<lparr>dest := fst kg\<rparr>) (filter (\<lambda>b. dest b = groupID) (bonds (snd kg))))
               (groups mol))"
    using vals by (simp add: reversedBonds_def [abs_def])
  ultimately show ?thesis using res extends_fresh [OF e] by blast
qed

theorem getAllBonds_fresh_copies_witness:
  "stored pairRefs pairMolecule pairHeap \<and>
   map_of (groups pairMolecule) 1 = Some (newGroup 1 0) \<and>
   (\<exists>h' as. getAllBonds_heap pairRefs pairMolecule 1 pairHeap = Inr (h', as) \<and>
      map (cells h') as =
        bonds (newGroup 1 0) @ concat (map (\<lambda>kg. if fst kg = 1 then []
            else map (\<lambda>b. b\<lparr>dest := fst kg\<rparr>) (filter (\<lambda>b. dest b = 1) (bonds (snd kg))))
          (groups pairMolecule)) \<and>
      getAllBonds pairMolecule 1 = Inr (map (cells h') as) \<and>
      distinct as \<and> (\<forall>a \<in> set as. nextAddr pairHeap \<le> a) \<and>
      (\<forall>a \<in> set as. \<forall>b. stored pairRefs pairMolecule (h'\<lparr>cells := (cells h')(a := b)\<rparr>)))"
proof -
  have st: "stored pairRefs pairMolecule pairHeap"
    by (simp add: stored_def storedAt_def pairRefs_def pairMolecule_def pairHeap_def newGroup_def)
  have g: "map_of (groups pairMolecule) 1 = Some (newGroup 1 0)"
    by (simp add: pairMolecule_def)
  from getAllBonds_fresh_copies [OF st g] st g show ?thesis by simp
qed

section \<open>Properties of removeMolecule\<close>

lemma findIndex_None: "findIndex P xs = None \<longleftrightarrow> (\<forall>x \<in> set xs. \<not> P x)"
  by (induction xs) auto

lemma findIndex_Some:
  "findIndex P xs = Some i \<Longrightarrow>
     \<exists>pre x post. xs = pre @ x # post \<and> length pre = i \<and> P x \<and> (\<forall>y \<in> set pre. \<not> P y)"
proof (induction xs arbitrary: i)
  case Nil
  then show ?case by simp
next
  case (Cons a xs)
  show ?case
  proof (cases "P a")
    case True
    with Cons.prems have "i = 0" by simp
    with True show ?thesis by (intro exI [of _ "[]"]) auto
  next
    case False
    with Cons.prems obtain j where j: "findIndex P xs = Some j" "i = Suc j" by auto
    from Cons.IH [OF j(1)] obtain pre x post where
      "xs = pre @ x # post" "length pre = j" "P x" "\<forall>y \<in> set pre. \<not> P y" by blast
    with False j(2) show ?thesis by (intro exI [of _ "a # pre"]) auto
  qed
qed

text \<open>
  C10. \<open>removeMolecule(mol)\<close> returns \<open>false\<close> and changes nothing when \<open>mol\<close> is not
  among the molecules. When it is, it returns \<open>true\<close>; the first occurrence of \<open>mol\<close> is
  removed from the molecules, the rings of \<open>mol\<close> are removed from the global ring list,
  every reaction index greater than or equal to the removed position is decremented by
  one, and nothing else changes.
\<close>

theorem removeMolecule_result:
  "(molRef mol \<notin> molRef ` set (molecules this) \<longrightarrow> removeMolecule this mol = (False, this)) \<and>
   (molRef mol \<in> molRef ` set (molecules this) \<longrightarrow>
      (\<exists>pre m post. molecules this = pre @ m # post \<and> molRef m = molRef mol \<and>
         molRef mol \<notin> molRef ` set pre \<and>
         removeMolecule this mol =
           (True, this\<lparr>molecules := pre @ post,
                       reactionIndexes := map (\<lambda>ri. if ri \<ge> int (length pre) then ri - 1 else ri)
                                            (reactionIndexes this),
                       psRings := filter (\<lambda>ring. ring \<notin> set (rings mol)) (psRings this)\<rparr>)))"
proof (cases "findIndex (\<lambda>m. molRef m = molRef mol) (molecules this)")
  case None
  then have "molRef mol \<notin> molRef ` set (molecules this)"
    by (auto simp: findIndex_None)
  with None show ?thesis by (simp add: removeMolecule_def)
next
  case (Some i)
  from findIndex_Some [OF Some] obtain pre m post where
    split: "molecules this = pre @ m # post" and len: "length pre = i"
    and m: "molRef m = molRef mol" and pre: "\<forall>y \<in> set pre. molRef y \<noteq> molRef mol" by blast
  have "removeMolecule this mol =
           (True, this\<lparr>molecules := pre @ post,
                       reactionIndexes := map (\<lambda>ri. if ri \<ge> int (length pre) then ri - 1 else ri)
                                            (reactionIndexes this),
                       psRings := filter (\<lambda>ring. ring \<notin> set (rings mol)) (psRings this)\<rparr>)"
    using Some split len by (simp add: removeMolecule_def)
  moreover have "molRef mol \<notin> molRef ` set pre" using pre by auto
  moreover have "molRef mol \<in> molRef ` set (molecules this)" using split m by force
  ultimately show ?thesis using split m by blast
qed

theorem removeMolecule_result_witness:
  "molRef strangerMolecule \<notin> molRef ` set (molecules twoMolecules) \<and>
   removeMolecule twoMolecules strangerMolecule = (False, twoMolecules) \<and>
   molRef (hd (molecules twoMolecules)) \<in> molRef ` set (molecules twoMolecules) \<and>
   (\<exists>pre m post. molecules twoMolecules = pre @ m # post \<and>
      molRef m = molRef (hd (molecules twoMolecules)) \<and>
      molRef (hd (molecules twoMolecules)) \<notin> molRef ` set pre \<and>
      removeMolecule twoMolecules (hd (molecules twoMolecules)) =
        (True, twoMolecules\<lparr>molecules := pre @ post,
           reactionIndexes := map (\<lambda>ri. if ri \<ge> int (length pre) then ri - 1 else ri)
                                (reactionIndexes twoMolecules),
           psRings := filter (\<lambda>ring. ring \<notin> set (rings (hd (molecules twoMolecules))))
                        (psRings twoMolecules)\<rparr>))"
proof -
  have a: "molRef strangerMolecule \<notin> molRef ` set (molecules twoMolecules)"
    by (simp add: strangerMolecule_def twoMolecules_def)
  have b: "molRef (hd (molecules twoMolecules)) \<in> molRef ` set (molecules twoMolecules)"
    by (simp add: twoMolecules_def)
  from removeMolecule_result [of strangerMolecule twoMolecules]
       removeMolecule_result [of "hd (molecules twoMolecules)" twoMolecules] a b
  show ?thesis by blast
qed

section \<open>Properties of countAtoms\<close>

lemma set_insertByCharge: "set (insertByCharge a bs) = insert a (set bs)"
  by (induction bs) auto

lemma mset_insertByCharge: "mset (insertByCharge a bs) = add_mset a (mset bs)"
  by (induction bs) auto

lemma mset_sortByCharge: "mset (sortByCharge as) = mset as"
  unfolding sortByCharge_def by (induction as) (auto simp: mset_insertByCharge)

lemma set_sortByCharge: "set (sortByCharge as) = set as"
  using mset_sortByCharge by (metis set_mset_mset)

lemma chargeLe_cases:
  "uniformCharges (a # b # cs) \<Longrightarrow> \<not> chargeAfter a b \<Longrightarrow> chargeLe a b"
  "uniformCharges (a # b # cs) \<Longrightarrow> chargeAfter a b \<Longrightarrow> chargeLe b a"
  by (auto simp: uniformCharges_def chargeAfter_def chargeLe_def split: option.splits)

lemma chargeLe_trans:
  "ionCharge b \<noteq> None \<or> (ionCharge a = None \<and> ionCharge c = None) \<Longrightarrow>
     chargeLe a b \<Longrightarrow> chargeLe b c \<Longrightarrow> chargeLe a c"
  by (auto simp: chargeLe_def split: option.splits)

lemma sorted_insertByCharge:
  assumes "uniformCharges (a # bs)" and "sorted_wrt chargeLe bs"
  shows "sorted_wrt chargeLe (insertByCharge a bs)"
  using assms
proof (induction bs)
  case Nil
  then show ?case by simp
next
  case (Cons b bs)
  have u: "uniformCharges (a # bs)" using Cons.prems(1) by (auto simp: uniformCharges_def)
  show ?case
  proof (cases "chargeAfter a b")
    case True
    have ba: "chargeLe b a" using True Cons.prems(1) chargeLe_cases(2) by blast
    have "sorted_wrt chargeLe (insertByCharge a bs)" using Cons.IH u Cons.prems(2) by simp
    moreover have "\<forall>x \<in> set (insertByCharge a bs). chargeLe b x"
      using ba Cons.prems(2) by (auto simp: set_insertByCharge)
    ultimately show ?thesis using True by simp
  next
    case False
    have ab: "chargeLe a b" using False Cons.prems(1) chargeLe_cases(1) by blast
    have "\<forall>x \<in> set bs. chargeLe a x"
    proof
      fix x assume x: "x \<in> set bs"
      then have bx: "chargeLe b x" using Cons.prems(2) by simp
      have "ionCharge b \<noteq> None \<or> (ionCharge a = None \<and> ionCharge x = None)"
        using Cons.prems(1) x by (auto simp: uniformCharges_def list_all_iff)
      from chargeLe_trans [OF this ab bx] show "chargeLe a x" .
    qed
    then show ?thesis using False ab Cons.prems(2) by simp
  qed
qed

lemma uniform_subset: "uniformCharges as \<Longrightarrow> set bs \<subseteq> set as \<Longrightarrow> uniformCharges bs"
  by (auto simp: uniformCharges_def list_all_iff)

lemma sorted_sortByCharge:
  "uniformCharges as \<Longrightarrow> sorted_wrt chargeLe (sortByCharge as)"
proof (induction as)
  case Nil
  then show ?case by (simp add: sortByCharge_def)
next
  case (Cons a as)
  have "uniformCharges as" using Cons.prems uniform_subset [of "a # as" as] by auto
  then have s: "sorted_wrt chargeLe (sortByCharge as)" using Cons.IH by simp
  have "uniformCharges (a # sortByCharge as)"
    using Cons.prems uniform_subset [of "a # as" "a # sortByCharge as"]
    by (auto simp: set_sortByCharge)
  from sorted_insertByCharge [OF this s] show ?case by (simp add: sortByCharge_def)
qed

lemma groupIons_inv:
  assumes "groupIons xs (els, ks) = (els', ks')"
    and "map fst els = ks" and "distinct ks"
    and "\<forall>kv \<in> set els. snd kv = filter (\<lambda>a. atom a = fst kv) seen"
    and "set ks = atom ` set seen"
  shows "map fst els' = ks' \<and> distinct ks' \<and>
         (\<forall>kv \<in> set els'. snd kv = filter (\<lambda>a. atom a = fst kv) (seen @ xs)) \<and>
         set ks' = atom ` set (seen @ xs)"
  using assms
proof (induction xs arbitrary: els ks seen)
  case Nil
  then show ?case by simp
next
  case (Cons g rest)
  have keys: "set ks = fst ` set els" using Cons.prems(2) by (metis set_map)
  show ?case
  proof (cases "map_of els (atom g)")
    case None
    then have "atom g \<notin> fst ` set els" by (simp add: map_of_eq_None_iff)
    then have notin: "atom g \<notin> set ks" using keys by simp
    have fresh: "\<forall>a \<in> set seen. atom a \<noteq> atom g"
      using notin Cons.prems(5) by (metis imageI)
    then have new: "filter (\<lambda>a. atom a = atom g) seen = []"
      by (simp add: filter_empty_conv)
    have step: "groupIons rest (els @ [(atom g, [g])], ks @ [atom g]) = (els', ks')"
      using Cons.prems(1) None by simp
    have inv: "\<forall>kv \<in> set (els @ [(atom g, [g])]). snd kv = filter (\<lambda>a. atom a = fst kv) (seen @ [g])"
    proof
      fix kv assume kv: "kv \<in> set (els @ [(atom g, [g])])"
      show "snd kv = filter (\<lambda>a. atom a = fst kv) (seen @ [g])"
      proof (cases "kv \<in> set els")
        case True
        then have "fst kv \<in> set ks" using keys by (metis imageI)
        with notin have "atom g \<noteq> fst kv" by metis
        with True Cons.prems(4) show ?thesis by simp
      next
        case False
        with kv have "kv = (atom g, [g])" by simp
        with new show ?thesis by simp
      qed
    qed
    have m: "map fst (els @ [(atom g, [g])]) = ks @ [atom g]" using Cons.prems(2) by simp
    have d: "distinct (ks @ [atom g])" using Cons.prems(3) notin by simp
    have s: "set (ks @ [atom g]) = atom ` set (seen @ [g])" using Cons.prems(5) by simp
    from Cons.IH [OF step m d inv s] show ?thesis by simp
  next
    case (Some ions)
    then have "(atom g, ions) \<in> set els" by (rule map_of_SomeD)
    then have "atom g \<in> fst ` set els" by (metis fst_conv imageI)
    then have isin: "atom g \<in> set ks" using keys by simp
    let ?upd = "\<lambda>kv. if fst kv = atom g then (fst kv, snd kv @ [g]) else kv"
    have same: "map (\<lambda>(k, v). if k = atom g then (k, v @ [g]) else (k, v)) els = map ?upd els"
      by (rule map_cong [OF refl]) (simp add: case_prod_beta)
    have step: "groupIons rest (map ?upd els, ks) = (els', ks')"
      using Cons.prems(1) Some same by simp
    have m: "map fst (map ?upd els) = ks"
    proof -
      have "map fst (map ?upd els) = map fst els" by (induction els) simp_all
      with Cons.prems(2) show ?thesis by simp
    qed
    have inv: "\<forall>kv \<in> set (map ?upd els). snd kv = filter (\<lambda>a. atom a = fst kv) (seen @ [g])"
    proof
      fix kv assume "kv \<in> set (map ?upd els)"
      then have "kv \<in> ?upd ` set els" by simp
      then obtain kv0 where kv0: "kv0 \<in> set els" "kv = ?upd kv0" by (rule imageE)
      from kv0(1) Cons.prems(4) have "snd kv0 = filter (\<lambda>a. atom a = fst kv0) seen" by simp
      with kv0(2) show "snd kv = filter (\<lambda>a. atom a = fst kv) (seen @ [g])"
        by (cases "fst kv0 = atom g") simp_all
    qed
    have s: "set ks = atom ` set (seen @ [g])" using isin Cons.prems(5) by auto
    from Cons.IH [OF step m Cons.prems(3) inv s] show ?thesis by simp
  qed
qed

lemma groupIons_result:
  assumes "groupIons xs ([], []) = (els, ks)"
  shows "distinct ks \<and> set ks = atom ` set xs \<and>
         (\<forall>k \<in> set ks. map_of els k = Some (filter (\<lambda>a. atom a = k) xs))"
proof -
  from groupIons_inv [OF assms, of "[]"] have
    a: "map fst els = ks" and b: "distinct ks"
    and c: "\<forall>kv \<in> set els. snd kv = filter (\<lambda>a. atom a = fst kv) xs" and d: "set ks = atom ` set xs"
    by simp_all
  have keys: "set ks = fst ` set els" using a by (metis set_map)
  have "\<forall>k \<in> set ks. map_of els k = Some (filter (\<lambda>a. atom a = k) xs)"
  proof
    fix k assume "k \<in> set ks"
    then have "k \<in> fst ` set els" using keys by simp
    then obtain v where v: "map_of els k = Some v"
      by (cases "map_of els k") (simp_all add: map_of_eq_None_iff)
    then have "(k, v) \<in> set els" by (rule map_of_SomeD)
    with c have "v = filter (\<lambda>a. atom a = k) xs" by fastforce
    with v show "map_of els k = Some (filter (\<lambda>a. atom a = k) xs)" by simp
  qed
  with b d show ?thesis by simp
qed

lemma map_of_map_sort:
  "map_of (map (\<lambda>(k, v). (k, f v)) els) k = map_option f (map_of els k)"
  by (induction els) auto

lemma mset_blocks:
  "distinct ks \<Longrightarrow> mset (blocks as ks) = mset (filter (\<lambda>a. atom a \<in> set ks) as)"
proof (induction ks)
  case Nil
  then show ?case by (simp add: blocks_def)
next
  case (Cons k ks)
  have "mset (filter (\<lambda>a. atom a \<in> set (k # ks)) as) =
        mset (filter (\<lambda>a. atom a = k) as) + mset (filter (\<lambda>a. atom a \<in> set ks) as)"
    using Cons.prems by (induction as) auto
  with Cons show ?case by (simp add: blocks_def mset_sortByCharge)
qed

lemma set_blocks: "set (blocks as ks) = {a \<in> set as. atom a \<in> set ks}"
  by (auto simp: blocks_def set_sortByCharge)

lemma sorted_blocks:
  assumes "uniformCharges as" and "sorted ks" and "distinct ks"
  shows "sorted_wrt (\<lambda>a b. atom a < atom b \<or> (atom a = atom b \<and> chargeLe a b)) (blocks as ks)"
  using assms(2,3)
proof (induction ks)
  case Nil
  then show ?case by (simp add: blocks_def)
next
  case (Cons k ks)
  let ?R = "\<lambda>a b. atom a < atom b \<or> (atom a = atom b \<and> chargeLe a b)"
  have u: "uniformCharges (filter (\<lambda>a. atom a = k) as)"
    using assms(1) uniform_subset by (metis filter_is_subset)
  have s1: "sorted_wrt chargeLe (sortByCharge (filter (\<lambda>a. atom a = k) as))"
    using sorted_sortByCharge [OF u] .
  have a1: "\<forall>a \<in> set (sortByCharge (filter (\<lambda>a. atom a = k) as)). atom a = k"
    by (simp add: set_sortByCharge)
  have h1: "sorted_wrt ?R (sortByCharge (filter (\<lambda>a. atom a = k) as))"
  proof (rule sorted_wrt_mono_rel [OF _ s1])
    fix x y
    assume x: "x \<in> set (sortByCharge (filter (\<lambda>a. atom a = k) as))"
      and y: "y \<in> set (sortByCharge (filter (\<lambda>a. atom a = k) as))" and le: "chargeLe x y"
    from a1 x have "atom x = k" by blast
    moreover from a1 y have "atom y = k" by blast
    ultimately show "?R x y" using le by simp
  qed
  from Cons.prems have "sorted ks" "distinct ks" by simp_all
  then have h2: "sorted_wrt ?R (blocks as ks)" by (rule Cons.IH)
  have "\<forall>a \<in> set (sortByCharge (filter (\<lambda>a. atom a = k) as)). \<forall>b \<in> set (blocks as ks). ?R a b"
  proof (intro ballI)
    fix a b assume a: "a \<in> set (sortByCharge (filter (\<lambda>a. atom a = k) as))"
      and b: "b \<in> set (blocks as ks)"
    from b have "atom b \<in> set ks" by (simp add: set_blocks)
    moreover from Cons.prems have "\<forall>x \<in> set ks. k \<le> x" "k \<notin> set ks" by simp_all
    ultimately have "k \<le> atom b" "k \<noteq> atom b" by blast+
    then have "k < atom b" by (rule le_neq_trans)
    moreover from a1 a have "atom a = k" by blast
    ultimately show "?R a b" by simp
  qed
  with h1 h2 have "sorted_wrt ?R (sortByCharge (filter (\<lambda>a. atom a = k) as) @ blocks as ks)"
    by (simp add: sorted_wrt_append)
  then show ?case by (simp add: blocks_def)
qed

lemma hillOrder_blocks:
  "hillOrder as =
     sortByCharge (rev (filter (\<lambda>a. atom a = ''C'') as)) @
     sortByCharge (rev (filter (\<lambda>a. atom a = ''H'') (filter (\<lambda>a. atom a \<noteq> ''C'') as))) @
     blocks (filter (\<lambda>a. atom a \<noteq> ''H'') (filter (\<lambda>a. atom a \<noteq> ''C'') as))
       (sort (snd (groupIons (filter (\<lambda>a. atom a \<noteq> ''H'') (filter (\<lambda>a. atom a \<noteq> ''C'') as)) ([], []))))"
proof -
  let ?rest = "filter (\<lambda>a. atom a \<noteq> ''H'') (filter (\<lambda>a. atom a \<noteq> ''C'') as)"
  obtain els ks where g: "groupIons ?rest ([], []) = (els, ks)" by fastforce
  from groupIons_result [OF g] have
    m: "\<forall>k \<in> set ks. map_of els k = Some (filter (\<lambda>a. atom a = k) ?rest)" by simp
  have "map (\<lambda>e. case map_of (map (\<lambda>(k, v). (k, sortByCharge v)) els) e of None \<Rightarrow> [] | Some ions \<Rightarrow> ions)
            (sort ks) =
        map (\<lambda>k. sortByCharge (filter (\<lambda>a. atom a = k) ?rest)) (sort ks)"
    using m by (auto simp: map_of_map_sort)
  then show ?thesis
    by (simp only: hillOrder_def Let_def g prod.case blocks_def snd_conv)
qed

lemma addCountAt_charges:
  "map ionCharge (addCountAt i n as) = map ionCharge as"
proof (cases "i < length as")
  case True
  have "(map ionCharge as)[i := map ionCharge as ! i] = map ionCharge as"
    by (rule list_update_id)
  with True show ?thesis by (simp add: addCountAt_def map_update)
next
  case False
  then have "as[i := (as ! i)\<lparr>countN := countN (as ! i) + n\<rparr>] = as"
    by (intro list_update_beyond) simp
  then show ?thesis by (simp add: addCountAt_def)
qed

lemma list_all_charges:
  "map ionCharge as = map ionCharge bs \<Longrightarrow>
     list_all (\<lambda>a. P (ionCharge a)) as = list_all (\<lambda>a. P (ionCharge a)) bs"
proof -
  assume "map ionCharge as = map ionCharge bs"
  then have "list_all P (map ionCharge as) = list_all P (map ionCharge bs)" by simp
  then show ?thesis by (simp add: list_all_iff)
qed

lemma tallyGroup_whole:
  "list_all (\<lambda>a. ionCharge a \<noteq> None) (fst st) \<Longrightarrow>
     list_all (\<lambda>a. ionCharge a \<noteq> None) (fst (tallyGroup u False ign g st))"
proof -
  assume a: "list_all (\<lambda>a. ionCharge a \<noteq> None) (fst st)"
  obtain atoms pos where st: "st = (atoms, pos)" by (cases st)
  show ?thesis
  proof (cases "indexOf pos (chargeStr (getElementString u g) (Some (if ign then 0 else charge g)))")
    case None
    with a st show ?thesis by (simp add: tallyGroup_def Let_def)
  next
    case (Some i)
    have "list_all (\<lambda>a. ionCharge a \<noteq> None) (addCountAt i 1 atoms)"
      using a st list_all_charges [OF addCountAt_charges, of "\<lambda>c. c \<noteq> None" i 1 atoms] by simp
    with Some st show ?thesis by (simp add: tallyGroup_def Let_def)
  qed
qed

lemma tallyGroup_split:
  "list_all (\<lambda>a. ionCharge a = None) (fst st) \<Longrightarrow>
     list_all (\<lambda>a. ionCharge a = None) (fst (tallyGroup u True ign g st))"
proof -
  have "list_all (\<lambda>a. ionCharge a = None) (fst st) \<Longrightarrow>
     list_all (\<lambda>a. ionCharge a = None)
       (fst (fold (\<lambda>(element, n) (atoms, elementsPos).
                (atoms @ [\<lparr>atom = element, ionCharge = None, countN = n\<rparr>],
                 elementsPos @ [chargeStr element (Some c)])) es st))" for es c
    by (induction es arbitrary: st) (auto simp: case_prod_beta)
  then show "list_all (\<lambda>a. ionCharge a = None) (fst st) \<Longrightarrow>
     list_all (\<lambda>a. ionCharge a = None) (fst (tallyGroup u True ign g st))"
    by (simp add: tallyGroup_def Let_def)
qed

lemma tally_fold:
  assumes "\<And>g st. P (fst st) \<Longrightarrow> P (fst (f g st))" and "P (fst st)"
  shows "P (fst (fold (\<lambda>kg. f (snd kg)) gs st))"
  using assms(2) by (induction gs arbitrary: st) (simp_all add: assms(1))

lemma splitNumbered_charges:
  "splitNumbered u as (newAtoms, pos) = Inr res \<Longrightarrow>
     list_all (\<lambda>a. ionCharge a = None) as \<Longrightarrow> list_all (\<lambda>a. ionCharge a = None) newAtoms \<Longrightarrow>
     list_all (\<lambda>a. ionCharge a = None) res"
proof (induction as arbitrary: newAtoms pos)
  case Nil
  then show ?case by simp
next
  case (Cons g rest)
  have upd: "list_all (\<lambda>a. ionCharge a = None) (addCountAt i n newAtoms)" for i n
    using Cons.prems(3) list_all_charges [OF addCountAt_charges, of "\<lambda>c. c = None" i n newAtoms] by simp
  from Cons.prems(2) have g: "ionCharge g = None" and rest: "list_all (\<lambda>a. ionCharge a = None) rest"
    by simp_all
  show ?case
  proof (cases "regexNumTest u (atom g)")
    case True
    show ?thesis
    proof (cases "extractElement u (atom g)")
      case None
      with True Cons.prems(1) show ?thesis by simp
    next
      case (Some a)
      show ?thesis
      proof (cases "indexOf pos (chargeStr a (ionCharge g))")
        case None
        with True Some Cons.prems(1) have
          "splitNumbered u rest (newAtoms @ [\<lparr>atom = a, ionCharge = None,
              countN = extractInteger u (drop (length a) (atom g))\<rparr>],
              pos @ [chargeStr a (ionCharge g)]) = Inr res"
          by (simp add: Let_def)
        from Cons.IH [OF this rest] Cons.prems(3) show ?thesis by simp
      next
        case (Some i)
        with True \<open>extractElement u (atom g) = Some a\<close> Cons.prems(1) have
          "splitNumbered u rest (addCountAt i (extractInteger u (drop (length a) (atom g))) newAtoms, pos) = Inr res"
          by (simp add: Let_def)
        from Cons.IH [OF this rest upd] show ?thesis .
      qed
    qed
  next
    case False
    show ?thesis
    proof (cases "indexOf pos (chargeStr (atom g) (ionCharge g))")
      case None
      with False Cons.prems(1) have
        "splitNumbered u rest (newAtoms @ [g], pos @ [chargeStr (atom g) (ionCharge g)]) = Inr res"
        by (simp add: Let_def)
      from Cons.IH [OF this rest] Cons.prems(3) g show ?thesis by simp
    next
      case (Some i)
      with False Cons.prems(1) have
        "splitNumbered u rest (addCountAt i (countN g) newAtoms, pos) = Inr res"
        by (simp add: Let_def)
      from Cons.IH [OF this rest upd] show ?thesis .
    qed
  qed
qed

lemma hillBefore_same_rank:
  "hillRank a = hillRank b \<Longrightarrow> atom a < atom b \<or> (atom a = atom b \<and> chargeLe a b) \<Longrightarrow> hillBefore a b"
  by (simp add: hillBefore_def)

lemma hillBefore_charge:
  "hillRank a = hillRank b \<Longrightarrow> atom a = atom b \<Longrightarrow> chargeLe a b \<Longrightarrow> hillBefore a b"
  by (simp add: hillBefore_def)

lemma hillBefore_rank: "hillRank a < hillRank b \<Longrightarrow> hillBefore a b"
  by (simp add: hillBefore_def)

lemma sorted_wrt_three:
  "sorted_wrt P xs \<Longrightarrow> sorted_wrt P ys \<Longrightarrow> sorted_wrt P zs \<Longrightarrow>
   \<forall>x \<in> set xs. \<forall>y \<in> set ys. P x y \<Longrightarrow> \<forall>x \<in> set xs. \<forall>z \<in> set zs. P x z \<Longrightarrow>
   \<forall>y \<in> set ys. \<forall>z \<in> set zs. P y z \<Longrightarrow> sorted_wrt P (xs @ ys @ zs)"
  by (auto simp: sorted_wrt_append)

lemma sorted_one_element:
  assumes "uniformCharges as" and "\<forall>a \<in> set as. atom a = e"
  shows "sorted_wrt hillBefore (sortByCharge as)"
proof (rule sorted_wrt_mono_rel [OF _ sorted_sortByCharge [OF assms(1)]])
  fix x y assume x: "x \<in> set (sortByCharge as)" and y: "y \<in> set (sortByCharge as)"
    and le: "chargeLe x y"
  from x y assms(2) have "atom x = e" "atom y = e" by (simp_all add: set_sortByCharge)
  then have "hillRank x = hillRank y" "atom x = atom y" by (simp_all add: hillRank_def)
  then show "hillBefore x y" using le by (rule hillBefore_charge)
qed

lemma sorted_hillOrder:
  assumes "uniformCharges as"
  shows "sorted_wrt hillBefore (hillOrder as)"
proof -
  let ?Cs = "rev (filter (\<lambda>a. atom a = ''C'') as)"
  let ?Hs = "rev (filter (\<lambda>a. atom a = ''H'') (filter (\<lambda>a. atom a \<noteq> ''C'') as))"
  let ?rest = "filter (\<lambda>a. atom a \<noteq> ''H'') (filter (\<lambda>a. atom a \<noteq> ''C'') as)"
  let ?ks = "sort (snd (groupIons ?rest ([], [])))"
  let ?B = "blocks ?rest ?ks"
  obtain els ks where g: "groupIons ?rest ([], []) = (els, ks)" by fastforce
  from groupIons_result [OF g] have dk: "distinct ks" by simp
  have aC: "\<forall>a \<in> set ?Cs. atom a = ''C''" by simp
  have aH: "\<forall>a \<in> set ?Hs. atom a = ''H''" by simp
  have rC: "\<forall>a \<in> set (sortByCharge ?Cs). hillRank a = 0"
    by (simp add: set_sortByCharge hillRank_def)
  have rH: "\<forall>a \<in> set (sortByCharge ?Hs). hillRank a = 1"
    by (simp add: set_sortByCharge hillRank_def)
  have rB: "\<forall>a \<in> set ?B. hillRank a = 2"
  proof
    fix a assume "a \<in> set ?B"
    then have "a \<in> set ?rest" by (simp add: set_blocks)
    then have "atom a \<noteq> ''C''" "atom a \<noteq> ''H''" by simp_all
    then show "hillRank a = 2" by (simp add: hillRank_def)
  qed
  have uC: "uniformCharges ?Cs" by (rule uniform_subset [OF assms]) auto
  have uH: "uniformCharges ?Hs" by (rule uniform_subset [OF assms]) auto
  have uR: "uniformCharges ?rest" by (rule uniform_subset [OF assms]) auto
  have sC: "sorted_wrt hillBefore (sortByCharge ?Cs)" using uC aC by (rule sorted_one_element)
  have sH: "sorted_wrt hillBefore (sortByCharge ?Hs)" using uH aH by (rule sorted_one_element)
  have sk: "sorted ?ks" by simp
  have dk': "distinct ?ks" using dk g by simp
  have sB: "sorted_wrt hillBefore ?B"
  proof (rule sorted_wrt_mono_rel [OF _ sorted_blocks [OF uR sk dk']])
    fix x y assume x: "x \<in> set ?B" and y: "y \<in> set ?B"
      and le: "atom x < atom y \<or> atom x = atom y \<and> chargeLe x y"
    from x y rB have "hillRank x = hillRank y" by simp
    then show "hillBefore x y" using le by (rule hillBefore_same_rank)
  qed
  have CH: "\<forall>x \<in> set (sortByCharge ?Cs). \<forall>y \<in> set (sortByCharge ?Hs). hillBefore x y"
  proof (intro ballI)
    fix x y assume "x \<in> set (sortByCharge ?Cs)" "y \<in> set (sortByCharge ?Hs)"
    with rC rH have "hillRank x < hillRank y" by simp
    then show "hillBefore x y" by (rule hillBefore_rank)
  qed
  have CB: "\<forall>x \<in> set (sortByCharge ?Cs). \<forall>y \<in> set ?B. hillBefore x y"
  proof (intro ballI)
    fix x y assume "x \<in> set (sortByCharge ?Cs)" "y \<in> set ?B"
    with rC rB have "hillRank x < hillRank y" by simp
    then show "hillBefore x y" by (rule hillBefore_rank)
  qed
  have HB: "\<forall>x \<in> set (sortByCharge ?Hs). \<forall>y \<in> set ?B. hillBefore x y"
  proof (intro ballI)
    fix x y assume "x \<in> set (sortByCharge ?Hs)" "y \<in> set ?B"
    with rH rB have "hillRank x < hillRank y" by simp
    then show "hillBefore x y" by (rule hillBefore_rank)
  qed
  have "sorted_wrt hillBefore (sortByCharge ?Cs @ sortByCharge ?Hs @ ?B)"
    using sC sH sB CH CB HB by (rule sorted_wrt_three)
  then show ?thesis by (simp only: hillOrder_blocks)
qed

lemma mset_split: "mset xs = mset (filter P xs) + mset (filter (\<lambda>x. \<not> P x) xs)"
  by (induction xs) auto

lemma mset_hillOrder: "mset (hillOrder as) = mset as"
proof -
  let ?rest = "filter (\<lambda>a. atom a \<noteq> ''H'') (filter (\<lambda>a. atom a \<noteq> ''C'') as)"
  obtain els ks where g: "groupIons ?rest ([], []) = (els, ks)" by fastforce
  from groupIons_result [OF g] have dk: "distinct ks" and sk: "set ks = atom ` set ?rest" by simp_all
  have "\<forall>a \<in> set ?rest. atom a \<in> set (sort ks)"
  proof
    fix a assume "a \<in> set ?rest"
    then have "atom a \<in> atom ` set ?rest" by (rule imageI)
    with sk show "atom a \<in> set (sort ks)" by simp
  qed
  then have "filter (\<lambda>a. atom a \<in> set (sort ks)) ?rest = ?rest"
    by (rule filter_True)
  moreover have "distinct (sort ks)" using dk by simp
  ultimately have "mset (blocks ?rest (sort ks)) = mset ?rest"
    using mset_blocks [of "sort ks" ?rest] by simp
  moreover have "mset as = mset (filter (\<lambda>a. atom a = ''C'') as) +
      (mset (filter (\<lambda>a. atom a = ''H'') (filter (\<lambda>a. atom a \<noteq> ''C'') as)) + mset ?rest)"
    using mset_split [of as "\<lambda>a. atom a = ''C''"]
          mset_split [of "filter (\<lambda>a. atom a \<noteq> ''C'') as" "\<lambda>a. atom a = ''H''"]
    by (simp only:)
  ultimately show ?thesis
    using g by (simp only: hillOrder_blocks snd_conv mset_append mset_sortByCharge mset_rev)
qed

lemma countAtoms_raw:
  assumes "countAtoms u opts mol = Inr result"
  shows "\<exists>raw. countAtoms u (opts\<lparr>hillSystemOrder := Some False\<rparr>) mol = Inr raw \<and> uniformCharges raw \<and>
           (splitGroups opts \<noteq> Some True \<longrightarrow> list_all (\<lambda>a. ionCharge a \<noteq> None) raw) \<and>
           result = (if hillSystemOrder opts = Some False then raw else hillOrder raw)"
proof (cases "splitGroups opts = Some True")
  case True
  let ?ign = "case ignoreCharge opts of None \<Rightarrow> False | Some b \<Rightarrow> b"
  let ?atoms = "fst (fold (\<lambda>kg. tallyGroup u True ?ign (snd kg)) (groups mol) ([], []))"
  have t: "list_all (\<lambda>a. ionCharge a = None) ?atoms"
    by (rule tally_fold [where P = "list_all (\<lambda>a. ionCharge a = None)"])
       (erule tallyGroup_split, simp)
  from assms True obtain raw where raw: "splitNumbered u ?atoms ([], []) = Inr raw"
    by (auto simp: countAtoms_def Let_def split: sum.splits)
  from splitNumbered_charges [OF raw t] have "list_all (\<lambda>a. ionCharge a = None) raw" by simp
  then have "uniformCharges raw" by (simp add: uniformCharges_def)
  moreover have "countAtoms u (opts\<lparr>hillSystemOrder := Some False\<rparr>) mol = Inr raw"
    using raw True by (simp add: countAtoms_def Let_def)
  moreover have "result = (if hillSystemOrder opts = Some False then raw else hillOrder raw)"
    using assms raw True by (auto simp: countAtoms_def Let_def split: option.splits)
  ultimately show ?thesis using True by blast
next
  case False
  let ?ign = "case ignoreCharge opts of None \<Rightarrow> False | Some b \<Rightarrow> b"
  let ?atoms = "fst (fold (\<lambda>kg. tallyGroup u False ?ign (snd kg)) (groups mol) ([], []))"
  have split: "(case splitGroups opts of None \<Rightarrow> False | Some b \<Rightarrow> b) = False"
    using False by (cases "splitGroups opts") auto
  have t: "list_all (\<lambda>a. ionCharge a \<noteq> None) ?atoms"
    by (rule tally_fold [where P = "list_all (\<lambda>a. ionCharge a \<noteq> None)"])
       (erule tallyGroup_whole, simp)
  then have "uniformCharges ?atoms" by (simp add: uniformCharges_def)
  moreover have "countAtoms u (opts\<lparr>hillSystemOrder := Some False\<rparr>) mol = Inr ?atoms"
    using split by (simp add: countAtoms_def Let_def)
  moreover have "result = (if hillSystemOrder opts = Some False then ?atoms else hillOrder ?atoms)"
    using assms split by (auto simp: countAtoms_def Let_def split: option.splits)
  ultimately show ?thesis using t by blast
qed

text \<open>
  C6. With Hill-system ordering enabled (the option not set to \<open>false\<close>), the list that
  \<open>countAtoms\<close> returns is in Hill order: every carbon entry comes before every hydrogen
  entry, these before every other entry; the other entries ascend by element string, and
  the entries of one element (carbon and hydrogen included) ascend by charge. The list
  holds the entries of the unordered count, and when groups are not split every charge is
  a number.
\<close>

theorem countAtoms_hill_order:
  assumes "countAtoms u opts mol = Inr result" and "hillSystemOrder opts \<noteq> Some False"
  shows "sorted_wrt hillBefore result \<and>
         (\<exists>raw. countAtoms u (opts\<lparr>hillSystemOrder := Some False\<rparr>) mol = Inr raw \<and>
                mset result = mset raw) \<and>
         (splitGroups opts \<noteq> Some True \<longrightarrow> list_all (\<lambda>a. ionCharge a \<noteq> None) result)"
proof -
  from countAtoms_raw [OF assms(1)] assms(2) obtain raw where
    raw: "countAtoms u (opts\<lparr>hillSystemOrder := Some False\<rparr>) mol = Inr raw"
    and u: "uniformCharges raw"
    and n: "splitGroups opts \<noteq> Some True \<longrightarrow> list_all (\<lambda>a. ionCharge a \<noteq> None) raw"
    and r: "result = hillOrder raw" by auto
  have "sorted_wrt hillBefore result" using sorted_hillOrder [OF u] r by simp
  moreover have m: "mset result = mset raw" using mset_hillOrder r by simp
  moreover have "splitGroups opts \<noteq> Some True \<longrightarrow> list_all (\<lambda>a. ionCharge a \<noteq> None) result"
  proof
    assume "splitGroups opts \<noteq> Some True"
    with n have "\<forall>a \<in> set raw. ionCharge a \<noteq> None" by (simp add: list_all_iff)
    moreover from m have "set result = set raw" by (rule mset_eq_setD)
    ultimately show "list_all (\<lambda>a. ionCharge a \<noteq> None) result" by (simp add: list_all_iff)
  qed
  ultimately show ?thesis using raw by blast
qed


lemma threeAtoms_count:
  "countAtoms plainUtils defaultCount threeAtoms =
     Inr [\<lparr>atom = ''C'', ionCharge = Some 0, countN = 1\<rparr>,
          \<lparr>atom = ''H'', ionCharge = Some 0, countN = 1\<rparr>,
          \<lparr>atom = ''O'', ionCharge = Some (- 1), countN = 1\<rparr>]"
  by code_simp

theorem countAtoms_hill_order_witness:
  "countAtoms plainUtils defaultCount threeAtoms =
     Inr [\<lparr>atom = ''C'', ionCharge = Some 0, countN = 1\<rparr>,
          \<lparr>atom = ''H'', ionCharge = Some 0, countN = 1\<rparr>,
          \<lparr>atom = ''O'', ionCharge = Some (- 1), countN = 1\<rparr>] \<and>
   hillSystemOrder defaultCount \<noteq> Some False \<and>
   sorted_wrt hillBefore
     [\<lparr>atom = ''C'', ionCharge = Some 0, countN = 1\<rparr>,
      \<lparr>atom = ''H'', ionCharge = Some 0, countN = 1\<rparr>,
      \<lparr>atom = ''O'', ionCharge = Some (- 1), countN = 1\<rparr>] \<and>
   (\<exists>raw. countAtoms plainUtils (defaultCount\<lparr>hillSystemOrder := Some False\<rparr>) threeAtoms = Inr raw \<and>
      mset [\<lparr>atom = ''C'', ionCharge = Some 0, countN = 1\<rparr>,
            \<lparr>atom = ''H'', ionCharge = Some 0, countN = 1\<rparr>,
            \<lparr>atom = ''O'', ionCharge = Some (- 1), countN = 1\<rparr>] = mset raw) \<and>
   list_all (\<lambda>a. ionCharge a \<noteq> None)
     [\<lparr>atom = ''C'', ionCharge = Some 0, countN = 1\<rparr>,
      \<lparr>atom = ''H'', ionCharge = Some 0, countN = 1\<rparr>,
      \<lparr>atom = ''O'', ionCharge = Some (- 1), countN = 1\<rparr>]"
proof -
  have h: "hillSystemOrder defaultCount \<noteq> Some False" by (simp add: defaultCount_def)
  have s: "splitGroups defaultCount \<noteq> Some True" by (simp add: defaultCount_def)
  from countAtoms_hill_order [OF threeAtoms_count h] s h threeAtoms_count
  show ?thesis by simp
qed

end
